theory Spec2Isabelle
  imports Complex_Main "HOL-Library.Multiset"
begin

section \<open>JavaScript values\<close>

text \<open>
  The components are TypeScript compiled to JavaScript.  Three features of the
  language decide what the code does on unusual inputs and are written out here.

  \<^item> A failed property read on \<open>undefined\<close> throws a \<open>TypeError\<close>; functions that can
    throw return \<open>js_error + 'a\<close>.
  \<^item> A \<open>number\<close> is modelled as \<open>real option\<close>: \<open>Some x\<close> is the finite number \<open>x\<close> and
    \<open>None\<close> a non-finite one (\<open>NaN\<close>, which is what \<open>0 / 0\<close> gives, or an infinity).
    Finite arithmetic is exact: the rounding of IEEE doubles is idealised away.
  \<^item> \<open>Array.prototype.indexOf\<close> and \<open>findIndex\<close> return \<open>-1\<close> when nothing is found,
    so indices are integers.
\<close>

datatype js_error = TypeError

type_synonym jsnum = "real option"

definition js_add :: "jsnum \<Rightarrow> jsnum \<Rightarrow> jsnum" where
  "js_add a b = (case (a, b) of (Some x, Some y) \<Rightarrow> Some (x + y) | _ \<Rightarrow> None)"

definition js_sub :: "jsnum \<Rightarrow> jsnum \<Rightarrow> jsnum" where
  "js_sub a b = (case (a, b) of (Some x, Some y) \<Rightarrow> Some (x - y) | _ \<Rightarrow> None)"

definition js_mul :: "jsnum \<Rightarrow> jsnum \<Rightarrow> jsnum" where
  "js_mul a b = (case (a, b) of (Some x, Some y) \<Rightarrow> Some (x * y) | _ \<Rightarrow> None)"

definition js_div :: "jsnum \<Rightarrow> jsnum \<Rightarrow> jsnum" where
  "js_div a b =
     (case (a, b) of
        (Some x, Some y) \<Rightarrow> if y = 0 then None else Some (x / y)
      | _ \<Rightarrow> None)"

definition js_count :: "nat \<Rightarrow> jsnum" where
  "js_count c = Some (real c)"

fun indexOf :: "'a list \<Rightarrow> 'a \<Rightarrow> int" where
  "indexOf [] x = -1"
| "indexOf (y # ys) x =
     (if y = x then 0
      else (let r = indexOf ys x in if r = -1 then -1 else r + 1))"


section \<open>Rows of the annotation store\<close>

text \<open>
  The interfaces \<open>Comment\<close>, \<open>Annotation\<close> and \<open>FinalAnnotation\<close> of the components.
  Labels are strings at run time.  Field names that several interfaces share
  (\<open>id\<close>, \<open>created_at\<close>, \<open>comment_id\<close>, \<open>text\<close>) carry the initial of their interface.
\<close>

datatype annotator_role = Annotator1 | Annotator2


record Annotation =
  a_id :: nat
  comment_id :: nat
  annotator_role :: annotator_role
  sentiment :: string
  discourse_polarization :: string
  a_created_at :: string

record FinalAnnotation =
  f_id :: nat
  f_comment_id :: nat
  final_sentiment :: string
  final_discourse_polarization :: string
  f_created_at :: string

section \<open>KappaCalculator.tsx\<close>

subsection \<open>calculateKappaForCategory\<close>

record kappa_stats =
  observedAgreement :: jsnum
  expectedAgreement :: jsnum
  kappa :: jsnum
  matrix :: "nat list list"

definition sentimentLabels :: "string list" where
  "sentimentLabels = [''positive'', ''negative'', ''neutral'']"

definition discourseLabels :: "string list" where
  "discourseLabels = [''partisan'', ''objective'', ''non_polarized'']"

text \<open>
  \<open>matrix[idx1][idx2]++\<close>.  An index comes from \<open>indexOf\<close>, so it is a position of the
  label list or \<open>-1\<close>.  Reading \<open>matrix[-1]\<close> gives \<open>undefined\<close> and the following
  property read throws.  With a row at hand and \<open>idx2 = -1\<close> nothing is thrown: the
  statement stores \<open>NaN\<close> under the property \<open>"-1"\<close> of the row, which is not one of its
  elements, so no cell of the row changes and no later \<open>reduce\<close> visits it.
\<close>

definition increment :: "nat list list \<Rightarrow> int \<Rightarrow> int \<Rightarrow> js_error + nat list list" where
  "increment m idx1 idx2 =
     (if 0 \<le> idx1 \<and> idx1 < int (length m) then
        (let row = m ! nat idx1 in
           if 0 \<le> idx2 \<and> idx2 < int (length row)
           then Inr (m[nat idx1 := row[nat idx2 := row ! nat idx2 + 1]])
           else Inr m)
      else Inl TypeError)"

text \<open>
  The \<open>for\<close> loop over \<open>i < annotator1.length\<close>.  The second list is walked in step;
  once it is exhausted \<open>annotator2[i]\<close> is \<open>undefined\<close>, which \<open>indexOf\<close> does not find.
  The accumulator is the matrix and \<open>observedAgreements\<close>.
\<close>

fun count_loop ::
  "string list \<Rightarrow> string list \<Rightarrow> string list \<Rightarrow> nat list list \<times> nat
     \<Rightarrow> js_error + nat list list \<times> nat" where
  "count_loop lbls [] ys (m, observedAgreements) = Inr (m, observedAgreements)"
| "count_loop lbls (x # xs) ys (m, observedAgreements) =
     (let idx1 = indexOf lbls x;
          idx2 = (case ys of [] \<Rightarrow> -1 | y # _ \<Rightarrow> indexOf lbls y)
      in case increment m idx1 idx2 of
           Inl e \<Rightarrow> Inl e
         | Inr m' \<Rightarrow>
             count_loop lbls xs (tl ys)
               (m', if idx1 = idx2 then observedAgreements + 1 else observedAgreements))"

definition calculateKappaForCategory ::
  "string list \<Rightarrow> string list \<Rightarrow> string list \<Rightarrow> js_error + kappa_stats" where
  "calculateKappaForCategory annotator1 annotator2 lbls =
     (let n = length annotator1;
          k = length lbls
      in case count_loop lbls annotator1 annotator2 (replicate k (replicate k 0), 0) of
           Inl e \<Rightarrow> Inl e
         | Inr (m, observedAgreements) \<Rightarrow>
             (let observedAgreement = js_div (js_count observedAgreements) (js_count n);
                  marginal1 =
                    map (\<lambda>idx. js_div (js_count (foldl (\<lambda>sum count. sum + count) 0 (m ! idx)))
                                       (js_count n)) [0..<k];
                  marginal2 =
                    map (\<lambda>idx. js_div (js_count (foldl (\<lambda>sum row. sum + row ! idx) 0 m))
                                       (js_count n)) [0..<k];
                  expectedAgreement =
                    foldl (\<lambda>sum (p1, idx). js_add sum (js_mul p1 (marginal2 ! idx)))
                      (Some 0) (zip marginal1 [0..<k]);
                  kappa =
                    (if expectedAgreement = Some 1 then Some 1
                     else js_div (js_sub observedAgreement expectedAgreement)
                                 (js_sub (Some 1) expectedAgreement))
              in Inr \<lparr>observedAgreement = observedAgreement,
                      expectedAgreement = expectedAgreement,
                      kappa = kappa,
                      matrix = m\<rparr>))"

subsection \<open>calculateKappa\<close>

text \<open>
  \<open>commentAnnotations\<close> is an object keyed by \<open>comment_id\<close>; each value has the optional
  properties \<open>annotator1\<close> and \<open>annotator2\<close>, assigned through the role of the annotation,
  so a value is a map from roles to annotations.  The object is kept as the list of its
  properties in creation order, because \<open>Object.values\<close> depends on it: properties
  whose key is an array index (an integer below \<open>2^32 - 1\<close>) come first in ascending
  order, the others follow in creation order.
\<close>

type_synonym pair = "annotator_role \<rightharpoonup> Annotation"

definition group_annotation :: "(nat \<times> pair) list \<Rightarrow> Annotation \<Rightarrow> (nat \<times> pair) list" where
  "group_annotation commentAnnotations annotation =
     (let key = comment_id annotation;
          created =
            (if map_of commentAnnotations key = None
             then commentAnnotations @ [(key, Map.empty)]
             else commentAnnotations)
      in map (\<lambda>(k, p). if k = key then (k, p(annotator_role annotation \<mapsto> annotation))
                         else (k, p)) created)"

definition Object_entries :: "(nat \<times> 'v) list \<Rightarrow> (nat \<times> 'v) list" where
  "Object_entries obj =
     sort_key fst (filter (\<lambda>(k, v). k < 4294967295) obj) @
     filter (\<lambda>(k, v). \<not> k < 4294967295) obj"

definition Object_values :: "(nat \<times> 'v) list \<Rightarrow> 'v list" where
  "Object_values obj = map snd (Object_entries obj)"

text \<open>
  \<open>.filter(pair => pair.annotator1 && pair.annotator2)\<close>.  Every pair that passes has both
  properties, which is what the later reads \<open>pair.annotator1!\<close> and \<open>pair.annotator2!\<close>
  rely on; the surviving pairs are kept as the two annotations themselves.
\<close>

definition complete_pairs :: "pair list \<Rightarrow> (Annotation \<times> Annotation) list" where
  "complete_pairs pairs =
     List.map_filter
       (\<lambda>p. case (p Annotator1, p Annotator2) of
               (Some a1, Some a2) \<Rightarrow> Some (a1, a2)
             | _ \<Rightarrow> None) pairs"

definition extract_pairs :: "Annotation list \<Rightarrow> (Annotation \<times> Annotation) list" where
  "extract_pairs anns = complete_pairs (Object_values (foldl group_annotation [] anns))"

record category_result = kappa_stats +
  labels :: "string list"

record KappaResult =
  r_sentiment :: category_result
  discoursePolarization :: category_result

record kc_state =
  annotations :: "Annotation list"
  kappaResults :: "KappaResult option"
  loading :: bool

text \<open>
  What one call of \<open>calculateKappa\<close> leaves behind: the component state, the messages
  shown with \<open>alert\<close>, and the exception if the call ended by one.
\<close>

record kc_outcome =
  state :: kc_state
  alerts :: "string list"
  thrown :: "js_error option"

definition with_labels :: "kappa_stats \<Rightarrow> string list \<Rightarrow> category_result" where
  "with_labels r ls =
     \<lparr>observedAgreement = observedAgreement r,
      expectedAgreement = expectedAgreement r,
      kappa = kappa r,
      matrix = matrix r,
      labels = ls\<rparr>"

definition calculateKappa :: "kc_state \<Rightarrow> kc_outcome" where
  "calculateKappa st0 =
     (let st = st0\<lparr>loading := True\<rparr>;
          completePairs = extract_pairs (annotations st)
      in if length completePairs = 0 then
           \<lparr>state = st\<lparr>loading := False\<rparr>,
            alerts = [''No complete annotation pairs found for both annotators.''],
            thrown = None\<rparr>
         else
           case calculateKappaForCategory
                  (map (\<lambda>p. sentiment (fst p)) completePairs)
                  (map (\<lambda>p. sentiment (snd p)) completePairs)
                  sentimentLabels of
             Inl e \<Rightarrow> \<lparr>state = st, alerts = [], thrown = Some e\<rparr>
           | Inr sentimentKappa \<Rightarrow>
              (case calculateKappaForCategory
                      (map (\<lambda>p. discourse_polarization (fst p)) completePairs)
                      (map (\<lambda>p. discourse_polarization (snd p)) completePairs)
                      discourseLabels of
                 Inl e \<Rightarrow> \<lparr>state = st, alerts = [], thrown = Some e\<rparr>
               | Inr discourseKappa \<Rightarrow>
                   \<lparr>state = st\<lparr>kappaResults :=
                               Some \<lparr>r_sentiment = with_labels sentimentKappa sentimentLabels,
                                     discoursePolarization =
                                       with_labels discourseKappa discourseLabels\<rparr>,
                             loading := False\<rparr>,
                    alerts = [],
                    thrown = None\<rparr>))"

section \<open>AdjudicatorInterface.tsx\<close>

definition hasDisagreement :: "Annotation list \<Rightarrow> bool" where
  "hasDisagreement anns =
     (if length anns < 2 then False
      else
        (let sentiment1 = sentiment (anns ! 0);
             sentiment2 = sentiment (anns ! 1);
             discourse1 = discourse_polarization (anns ! 0);
             discourse2 = discourse_polarization (anns ! 1)
         in sentiment1 \<noteq> sentiment2 \<or> discourse1 \<noteq> discourse2))"




section \<open>Notions of the specification\<close>

text \<open>The number of positions at which two label sequences agree.\<close>

definition agreements :: "string list \<Rightarrow> string list \<Rightarrow> nat" where
  "agreements seq1 seq2 = length (filter (\<lambda>i. seq1 ! i = seq2 ! i) [0..<length seq1])"

text \<open>The number of positions with label \<open>a\<close> in the first and \<open>b\<close> in the second sequence.\<close>

definition cooccurrences :: "string list \<Rightarrow> string list \<Rightarrow> string \<Rightarrow> string \<Rightarrow> nat" where
  "cooccurrences seq1 seq2 a b =
     length (filter (\<lambda>i. seq1 ! i = a \<and> seq2 ! i = b) [0..<length seq1])"

definition row_sum :: "nat list list \<Rightarrow> nat \<Rightarrow> nat" where
  "row_sum m r = sum_list (m ! r)"

definition column_sum :: "nat list list \<Rightarrow> nat \<Rightarrow> nat" where
  "column_sum m c = sum_list (map (\<lambda>row. row ! c) m)"

definition cell_total :: "nat list list \<Rightarrow> nat" where
  "cell_total m = sum_list (map sum_list m)"

definition square :: "nat \<Rightarrow> nat list list \<Rightarrow> bool" where
  "square k m \<longleftrightarrow> length m = k \<and> list_all (\<lambda>row. length row = k) m"

text \<open>The judgments of one annotator on one item, in the order of the store.\<close>

definition judgments_of :: "Annotation list \<Rightarrow> nat \<Rightarrow> annotator_role \<Rightarrow> Annotation list" where
  "judgments_of anns c r = filter (\<lambda>a. comment_id a = c \<and> annotator_role a = r) anns"

text \<open>At most one judgment per item and annotator.\<close>

definition judgment_invariant :: "Annotation list \<Rightarrow> bool" where
  "judgment_invariant anns \<longleftrightarrow> distinct (map (\<lambda>a. (comment_id a, annotator_role a)) anns)"

text \<open>A complete pair: exactly one judgment from each of the two annotators.\<close>

definition complete_pair :: "Annotation list \<Rightarrow> nat \<Rightarrow> bool" where
  "complete_pair anns c \<longleftrightarrow>
     length (judgments_of anns c Annotator1) = 1 \<and> length (judgments_of anns c Annotator2) = 1"

text \<open>The index pairs the counting loop computes, one for each position of the first list.\<close>

fun index_pairs :: "string list \<Rightarrow> string list \<Rightarrow> string list \<Rightarrow> (int \<times> int) list" where
  "index_pairs lbls [] ys = []"
| "index_pairs lbls (x # xs) ys =
     (indexOf lbls x, (case ys of [] \<Rightarrow> -1 | y # _ \<Rightarrow> indexOf lbls y)) #
     index_pairs lbls xs (tl ys)"

text \<open>The latest judgment of an annotator on an item, if there is one.\<close>

definition latest :: "Annotation list \<Rightarrow> nat \<Rightarrow> annotator_role \<Rightarrow> Annotation option" where
  "latest anns c r = (case rev (judgments_of anns c r) of [] \<Rightarrow> None | a # _ \<Rightarrow> Some a)"

text \<open>The latest judgments of both annotators on an item, if both have one.\<close>

definition both_latest :: "Annotation list \<Rightarrow> nat \<Rightarrow> (Annotation \<times> Annotation) option" where
  "both_latest anns c =
     (case (latest anns c Annotator1, latest anns c Annotator2) of
        (Some a1, Some a2) \<Rightarrow> Some (a1, a2)
      | _ \<Rightarrow> None)"



text \<open>A judgment row for the examples below.\<close>

definition mk_judgment :: "nat \<Rightarrow> annotator_role \<Rightarrow> string \<Rightarrow> string \<Rightarrow> Annotation" where
  "mk_judgment c r s d =
     \<lparr>a_id = 0, comment_id = c, annotator_role = r, sentiment = s,
      discourse_polarization = d, a_created_at = ''''\<rparr>"


text \<open>
  Judgments on three items: items 2 and 5 are judged by both annotators, item 7 by the
  first only.
\<close>

definition paired_judgments :: "Annotation list" where
  "paired_judgments =
     [mk_judgment 5 Annotator1 ''positive'' ''partisan'',
      mk_judgment 5 Annotator2 ''negative'' ''partisan'',
      mk_judgment 2 Annotator2 ''neutral'' ''objective'',
      mk_judgment 2 Annotator1 ''neutral'' ''objective'',
      mk_judgment 7 Annotator1 ''neutral'' ''objective'']"



section \<open>Positions of labels\<close>

lemma indexOf_range: "indexOf lbls x = -1 \<or> (0 \<le> indexOf lbls x \<and> indexOf lbls x < int (length lbls))"
  by (induction lbls) (auto simp: Let_def)

lemma indexOf_member: "x \<in> set lbls \<longleftrightarrow> indexOf lbls x \<noteq> -1"
proof (induction lbls)
  case Nil
  show ?case by simp
next
  case (Cons y ys)
  have "indexOf ys x = -1 \<or> 0 \<le> indexOf ys x" using indexOf_range [of ys x] by auto
  with Cons show ?case by (auto simp: Let_def)
qed

lemma indexOf_nth: "x \<in> set lbls \<Longrightarrow> lbls ! nat (indexOf lbls x) = x"
proof (induction lbls)
  case Nil
  then show ?case by simp
next
  case (Cons y ys)
  show ?case
  proof (cases "y = x")
    case True
    then show ?thesis by simp
  next
    case False
    with Cons.prems have mem: "x \<in> set ys" by simp
    then have ne: "indexOf ys x \<noteq> -1" by (simp add: indexOf_member)
    with indexOf_range [of ys x] have ge: "0 \<le> indexOf ys x" by auto
    from ge have "nat (indexOf ys x + 1) = Suc (nat (indexOf ys x))" by simp
    with False ne Cons.IH [OF mem] show ?thesis by (simp add: Let_def)
  qed
qed

lemma indexOf_in_range:
  "x \<in> set lbls \<Longrightarrow> 0 \<le> indexOf lbls x \<and> indexOf lbls x < int (length lbls)"
  using indexOf_range [of lbls x] by (auto simp: indexOf_member)

lemma indexOf_eq_iff:
  assumes "x \<in> set lbls"
  shows "indexOf lbls x = indexOf lbls y \<longleftrightarrow> x = y"
proof
  assume eq: "indexOf lbls x = indexOf lbls y"
  with assms have "y \<in> set lbls" by (simp add: indexOf_member)
  then have "lbls ! nat (indexOf lbls y) = y" by (rule indexOf_nth)
  moreover have "lbls ! nat (indexOf lbls x) = x" using assms by (rule indexOf_nth)
  ultimately show "x = y" using eq by simp
qed simp

lemma indexOf_distinct:
  "distinct lbls \<Longrightarrow> r < length lbls \<Longrightarrow> indexOf lbls (lbls ! r) = int r"
proof (induction lbls arbitrary: r)
  case Nil
  then show ?case by simp
next
  case (Cons y ys)
  show ?case
  proof (cases r)
    case 0
    then show ?thesis by simp
  next
    case (Suc r')
    with Cons.prems have r': "r' < length ys" and d: "distinct ys" and ny: "y \<notin> set ys" by auto
    from r' ny have "y \<noteq> ys ! r'" by (metis nth_mem)
    with Suc Cons.IH [OF d r'] show ?thesis by (simp add: Let_def)
  qed
qed

lemma indexOf_label_iff:
  assumes "distinct lbls" "r < length lbls"
  shows "indexOf lbls x = int r \<longleftrightarrow> x = lbls ! r"
proof
  assume eq: "indexOf lbls x = int r"
  then have "x \<in> set lbls" by (simp add: indexOf_member)
  then have "lbls ! nat (indexOf lbls x) = x" by (rule indexOf_nth)
  with eq show "x = lbls ! r" by simp
next
  assume "x = lbls ! r"
  with assms show "indexOf lbls x = int r" by (simp add: indexOf_distinct)
qed

section \<open>Disagreement between two judgments\<close>

text \<open>
  Claim C6.  With fewer than two judgments \<open>hasDisagreement\<close> is false; with exactly two
  it is true if and only if the two judgments differ in their sentiment label or in
  their discourse label, equality being equality of the label strings.
\<close>

theorem hasDisagreement_two_judgments:
  "(length anns < 2 \<longrightarrow> \<not> hasDisagreement anns) \<and>
   (anns = [a, b] \<longrightarrow>
      (hasDisagreement anns \<longleftrightarrow>
         sentiment a \<noteq> sentiment b \<or> discourse_polarization a \<noteq> discourse_polarization b))"
  by (auto simp: hasDisagreement_def)

theorem hasDisagreement_two_judgments_witness:
  "\<not> hasDisagreement [mk_judgment 1 Annotator1 ''positive'' ''partisan''] \<and>
   hasDisagreement [mk_judgment 1 Annotator1 ''positive'' ''partisan'',
                    mk_judgment 1 Annotator2 ''positive'' ''objective'']"
  using hasDisagreement_two_judgments
          [of "[mk_judgment 1 Annotator1 ''positive'' ''partisan'']"]
        hasDisagreement_two_judgments
          [of "[mk_judgment 1 Annotator1 ''positive'' ''partisan'',
                mk_judgment 1 Annotator2 ''positive'' ''objective'']"
              "mk_judgment 1 Annotator1 ''positive'' ''partisan''"
              "mk_judgment 1 Annotator2 ''positive'' ''objective''"]
  by (simp add: mk_judgment_def)

section \<open>The counting loop\<close>

lemma square_replicate: "square k (replicate k (replicate k 0))"
  by (simp add: square_def list_all_iff)

lemma square_row: "square k m \<Longrightarrow> r < k \<Longrightarrow> length (m ! r) = k"
  by (simp add: square_def list_all_length)

lemma cell_total_update:
  assumes "r < length m" "c < length (m ! r)"
  shows "cell_total (m[r := (m ! r)[c := m ! r ! c + 1]]) = cell_total m + 1"
proof -
  have row: "sum_list ((m ! r)[c := m ! r ! c + 1]) = sum_list (m ! r) + 1"
    using assms(2) member_le_sum_list [of "m ! r ! c" "m ! r"]
    by (simp add: sum_list_update)
  have "sum_list ((map sum_list m)[r := sum_list (m ! r) + 1]) = sum_list (map sum_list m) + 1"
    using assms(1) member_le_sum_list [of "map sum_list m ! r" "map sum_list m"]
    by (simp add: sum_list_update)
  with row show ?thesis by (simp add: cell_total_def map_update)
qed

lemma increment_TypeError:
  "\<not> (0 \<le> idx1 \<and> idx1 < int (length m)) \<Longrightarrow> increment m idx1 idx2 = Inl TypeError"
  by (auto simp: increment_def)

lemma increment_ok:
  assumes sq: "square k m" and i: "0 \<le> idx1" "idx1 < int k"
  shows "\<exists>m'. increment m idx1 idx2 = Inr m' \<and> square k m' \<and>
           cell_total m' = cell_total m + (if 0 \<le> idx2 \<and> idx2 < int k then 1 else 0) \<and>
           (\<forall>r<k. \<forall>c<k. m' ! r ! c =
               m ! r ! c + (if (idx1, idx2) = (int r, int c) then 1 else 0))"
proof -
  from sq have len: "length m = k" by (simp add: square_def)
  from i have r: "nat idx1 < k" by linarith
  with sq have rowlen: "length (m ! nat idx1) = k" by (rule square_row)
  show ?thesis
  proof (cases "0 \<le> idx2 \<and> idx2 < int k")
    case False
    with i len rowlen sq show ?thesis by (auto simp: increment_def Let_def)
  next
    case True
    then have c: "nat idx2 < k" by linarith
    let ?m' = "m[nat idx1 := (m ! nat idx1)[nat idx2 := m ! nat idx1 ! nat idx2 + 1]]"
    have eq: "increment m idx1 idx2 = Inr ?m'"
      using i True len rowlen by (simp add: increment_def Let_def)
    have sq': "square k ?m'"
      using sq r rowlen by (auto simp: square_def list_all_length nth_list_update)
    have tot: "cell_total ?m' = cell_total m + 1"
      using cell_total_update [of "nat idx1" m "nat idx2"] r c len rowlen by simp
    have cells: "\<forall>r<k. \<forall>c<k. ?m' ! r ! c =
               m ! r ! c + (if (idx1, idx2) = (int r, int c) then 1 else 0)"
      using i True len rowlen by (auto simp: nth_list_update)
    from eq sq' tot cells True show ?thesis by simp
  qed
qed

lemma count_loop_ok:
  assumes "square k m" "k = length lbls" "set xs \<subseteq> set lbls"
  shows "\<exists>m'. count_loop lbls xs ys (m, oa) =
                 Inr (m', oa + length (filter (\<lambda>p. fst p = snd p) (index_pairs lbls xs ys))) \<and>
           square k m' \<and>
           cell_total m' = cell_total m + length (filter (\<lambda>p. 0 \<le> snd p) (index_pairs lbls xs ys)) \<and>
           (\<forall>r<k. \<forall>c<k. m' ! r ! c =
               m ! r ! c + length (filter (\<lambda>p. p = (int r, int c)) (index_pairs lbls xs ys)))"
  using assms
proof (induction xs arbitrary: ys m oa)
  case Nil
  then show ?case by simp
next
  case (Cons x xs)
  define idx1 where "idx1 = indexOf lbls x"
  define idx2 where "idx2 = (case ys of [] \<Rightarrow> -1 | y # _ \<Rightarrow> indexOf lbls y)"
  from Cons.prems have x: "x \<in> set lbls" and xs: "set xs \<subseteq> set lbls" by auto
  from x Cons.prems(2) have i: "0 \<le> idx1" "idx1 < int k"
    using indexOf_in_range [of x lbls] by (auto simp: idx1_def)
  have j: "idx2 = -1 \<or> (0 \<le> idx2 \<and> idx2 < int k)"
    using indexOf_range [of lbls] Cons.prems(2) by (auto simp: idx2_def split: list.splits)
  from increment_ok [OF Cons.prems(1) i, of idx2]
  obtain m1 where m1: "increment m idx1 idx2 = Inr m1" "square k m1"
      "cell_total m1 = cell_total m + (if 0 \<le> idx2 \<and> idx2 < int k then 1 else 0)"
      "\<forall>r<k. \<forall>c<k. m1 ! r ! c = m ! r ! c + (if (idx1, idx2) = (int r, int c) then 1 else 0)"
    by blast
  let ?oa1 = "if idx1 = idx2 then oa + 1 else oa"
  from Cons.IH [OF m1(2) Cons.prems(2) xs, of "tl ys" ?oa1]
  obtain m' where m': "count_loop lbls xs (tl ys) (m1, ?oa1) =
        Inr (m', ?oa1 + length (filter (\<lambda>p. fst p = snd p) (index_pairs lbls xs (tl ys))))"
      "square k m'"
      "cell_total m' = cell_total m1 + length (filter (\<lambda>p. 0 \<le> snd p) (index_pairs lbls xs (tl ys)))"
      "\<forall>r<k. \<forall>c<k. m' ! r ! c =
               m1 ! r ! c + length (filter (\<lambda>p. p = (int r, int c)) (index_pairs lbls xs (tl ys)))"
    by blast
  have step: "count_loop lbls (x # xs) ys (m, oa) = count_loop lbls xs (tl ys) (m1, ?oa1)"
    using m1(1) by (simp add: idx1_def idx2_def Let_def)
  have ps: "index_pairs lbls (x # xs) ys = (idx1, idx2) # index_pairs lbls xs (tl ys)"
    by (simp add: idx1_def idx2_def)
  have a: "count_loop lbls (x # xs) ys (m, oa) =
        Inr (m', oa + length (filter (\<lambda>p. fst p = snd p) (index_pairs lbls (x # xs) ys)))"
    unfolding step ps using m'(1) by simp
  have b: "cell_total m' = cell_total m + length (filter (\<lambda>p. 0 \<le> snd p) (index_pairs lbls (x # xs) ys))"
    unfolding ps using m'(3) m1(3) j by auto
  have c: "\<forall>r<k. \<forall>c<k. m' ! r ! c =
               m ! r ! c + length (filter (\<lambda>p. p = (int r, int c)) (index_pairs lbls (x # xs) ys))"
    unfolding ps using m'(4) m1(4) by auto
  from a m'(2) b c show ?case by blast
qed

lemma count_loop_TypeError:
  assumes "square k m" "k = length lbls" "\<not> set xs \<subseteq> set lbls"
  shows "count_loop lbls xs ys (m, oa) = Inl TypeError"
  using assms
proof (induction xs arbitrary: ys m oa)
  case Nil
  then show ?case by simp
next
  case (Cons x xs)
  define idx1 where "idx1 = indexOf lbls x"
  define idx2 where "idx2 = (case ys of [] \<Rightarrow> -1 | y # _ \<Rightarrow> indexOf lbls y)"
  show ?case
  proof (cases "x \<in> set lbls")
    case False
    then have "idx1 = -1" by (simp add: idx1_def indexOf_member)
    then have "increment m idx1 idx2 = Inl TypeError" by (simp add: increment_TypeError)
    then show ?thesis by (simp add: idx1_def idx2_def Let_def)
  next
    case True
    with Cons.prems have xs: "\<not> set xs \<subseteq> set lbls" by auto
    from True Cons.prems(2) have i: "0 \<le> idx1" "idx1 < int k"
      using indexOf_in_range [of x lbls] by (auto simp: idx1_def)
    from increment_ok [OF Cons.prems(1) i, of idx2]
    obtain m1 where m1: "increment m idx1 idx2 = Inr m1" "square k m1" by blast
    from Cons.IH [OF m1(2) Cons.prems(2) xs] m1(1)
    show ?thesis by (simp add: idx1_def idx2_def Let_def)
  qed
qed

lemma index_pairs_zip:
  "length xs = length ys \<Longrightarrow>
     index_pairs lbls xs ys = map (\<lambda>i. (indexOf lbls (xs ! i), indexOf lbls (ys ! i))) [0..<length xs]"
proof (induction xs arbitrary: ys)
  case Nil
  then show ?case by simp
next
  case (Cons x xs)
  then obtain y ys' where ys: "ys = y # ys'" by (cases ys) auto
  with Cons.prems have len: "length xs = length ys'" by simp
  have "[0..<length (x # xs)] = 0 # map Suc [0..<length xs]"
    by (simp add: upt_conv_Cons map_Suc_upt del: upt_Suc)
  with Cons.IH [OF len] ys show ?case by (simp add: comp_def del: upt_Suc)
qed

section \<open>The result of calculateKappaForCategory\<close>

lemma foldl_row: "foldl (\<lambda>sum count. sum + count) a (row :: nat list) = a + sum_list row"
  by (induction row arbitrary: a) auto

lemma foldl_column:
  "foldl (\<lambda>sum row. sum + row ! c) a (m :: nat list list) = a + sum_list (map (\<lambda>row. row ! c) m)"
  by (induction m arbitrary: a) auto

lemma foldl_expected:
  assumes "\<forall>i\<in>set ixs. i < k"
  shows "foldl (\<lambda>sum (p1, idx). js_add sum (js_mul p1 (map (\<lambda>i. Some (g i)) [0..<k] ! idx)))
           (Some a) (zip (map (\<lambda>i. Some (f i)) ixs) ixs) =
         Some (a + (\<Sum>i\<leftarrow>ixs. f i * g i))"
  using assms
proof (induction ixs arbitrary: a)
  case Nil
  then show ?case by simp
next
  case (Cons i ixs)
  then have "i < k" and rest: "\<forall>i\<in>set ixs. i < k" by auto
  then have "js_add (Some a) (js_mul (Some (f i)) (map (\<lambda>i. Some (g i)) [0..<k] ! i)) =
        Some (a + f i * g i)"
    by (simp add: js_add_def js_mul_def)
  with Cons.IH [OF rest, of "a + f i * g i"] show ?case by (simp add: add.assoc)
qed


lemma calculate_result:
  assumes loop: "count_loop lbls annotator1 annotator2
                   (replicate (length lbls) (replicate (length lbls) 0), 0) = Inr (m, oa)"
    and n: "0 < length annotator1"
  shows "calculateKappaForCategory annotator1 annotator2 lbls =
           Inr \<lparr>observedAgreement = Some (real oa / real (length annotator1)),
                expectedAgreement =
                  Some (\<Sum>r\<leftarrow>[0..<length lbls].
                          real (row_sum m r) / real (length annotator1) *
                          (real (column_sum m r) / real (length annotator1))),
                kappa =
                  (let po = real oa / real (length annotator1);
                       pe = (\<Sum>r\<leftarrow>[0..<length lbls].
                               real (row_sum m r) / real (length annotator1) *
                               (real (column_sum m r) / real (length annotator1)))
                   in if pe = 1 then Some 1 else Some ((po - pe) / (1 - pe))),
                matrix = m\<rparr>"
proof -
  let ?n = "real (length annotator1)"
  let ?k = "length lbls"
  let ?f = "\<lambda>r. real (row_sum m r) / ?n"
  let ?g = "\<lambda>r. real (column_sum m r) / ?n"
  from n have n0: "?n \<noteq> 0" by simp
  have m1: "map (\<lambda>idx. js_div (js_count (foldl (\<lambda>sum count. sum + count) 0 (m ! idx)))
                                       (js_count (length annotator1))) [0..<?k] =
            map (\<lambda>i. Some (?f i)) [0..<?k]"
    using n0 by (simp add: js_div_def js_count_def foldl_row row_sum_def)
  have m2: "map (\<lambda>idx. js_div (js_count (foldl (\<lambda>sum row. sum + row ! idx) 0 m))
                                       (js_count (length annotator1))) [0..<?k] =
            map (\<lambda>i. Some (?g i)) [0..<?k]"
    using n0 by (simp add: js_div_def js_count_def foldl_column column_sum_def)
  have pe: "foldl (\<lambda>sum (p1, idx). js_add sum (js_mul p1 (map (\<lambda>i. Some (?g i)) [0..<?k] ! idx)))
           (Some 0) (zip (map (\<lambda>i. Some (?f i)) [0..<?k]) [0..<?k]) =
         Some (\<Sum>i\<leftarrow>[0..<?k]. ?f i * ?g i)"
    using foldl_expected [of "[0..<?k]" ?k ?g 0 ?f] by simp
  have po: "js_div (js_count oa) (js_count (length annotator1)) = Some (real oa / ?n)"
    using n0 by (simp add: js_div_def js_count_def)
  show ?thesis
    unfolding calculateKappaForCategory_def Let_def loop sum.case prod.case m1 m2 pe po
    by (simp add: js_div_def js_sub_def)
qed

lemma cell_total_zero: "cell_total (replicate k (replicate k 0)) = 0"
  by (simp add: cell_total_def)

lemma loop_summary:
  assumes sub: "set seq1 \<subseteq> set lbls" and len: "length seq1 = length seq2"
  shows "\<exists>m. count_loop lbls seq1 seq2
                (replicate (length lbls) (replicate (length lbls) 0), 0) =
                Inr (m, agreements seq1 seq2) \<and>
           square (length lbls) m \<and>
           cell_total m = length (filter (\<lambda>i. seq2 ! i \<in> set lbls) [0..<length seq1]) \<and>
           (\<forall>r<length lbls. \<forall>c<length lbls. m ! r ! c =
               length (filter (\<lambda>i. indexOf lbls (seq1 ! i) = int r \<and>
                                     indexOf lbls (seq2 ! i) = int c) [0..<length seq1]))"
proof -
  let ?k = "length lbls"
  let ?ps = "index_pairs lbls seq1 seq2"
  from count_loop_ok [OF square_replicate refl sub, of seq2 0]
  obtain m where m: "count_loop lbls seq1 seq2 (replicate ?k (replicate ?k 0), 0) =
        Inr (m, 0 + length (filter (\<lambda>p. fst p = snd p) ?ps))"
      "square ?k m"
      "cell_total m = cell_total (replicate ?k (replicate ?k 0)) +
         length (filter (\<lambda>p. 0 \<le> snd p) ?ps)"
      "\<forall>r<?k. \<forall>c<?k. m ! r ! c = replicate ?k (replicate ?k 0) ! r ! c +
               length (filter (\<lambda>p. p = (int r, int c)) ?ps)"
    by blast
  have ps: "?ps = map (\<lambda>i. (indexOf lbls (seq1 ! i), indexOf lbls (seq2 ! i))) [0..<length seq1]"
    using len by (rule index_pairs_zip)
  have mem: "seq1 ! i \<in> set lbls" if "i < length seq1" for i
    using sub that by (meson nth_mem subsetD)
  have agree: "length (filter (\<lambda>p. fst p = snd p) ?ps) = agreements seq1 seq2"
    unfolding ps agreements_def length_filter_map comp_def fst_conv snd_conv
    by (rule arg_cong [where f = length], rule filter_cong) (auto simp: indexOf_eq_iff mem)
  have inset: "length (filter (\<lambda>p. 0 \<le> snd p) ?ps) =
        length (filter (\<lambda>i. seq2 ! i \<in> set lbls) [0..<length seq1])"
    unfolding ps length_filter_map comp_def snd_conv
  proof (rule arg_cong [where f = length], rule filter_cong)
    fix i
    show "(0 \<le> indexOf lbls (seq2 ! i)) = (seq2 ! i \<in> set lbls)"
      using indexOf_range [of lbls "seq2 ! i"] by (auto simp: indexOf_member)
  qed simp
  have cells: "length (filter (\<lambda>p. p = (int r, int c)) ?ps) =
        length (filter (\<lambda>i. indexOf lbls (seq1 ! i) = int r \<and>
                              indexOf lbls (seq2 ! i) = int c) [0..<length seq1])" for r c
    unfolding ps length_filter_map comp_def by simp
  from m(1) agree have a: "count_loop lbls seq1 seq2 (replicate ?k (replicate ?k 0), 0) =
        Inr (m, agreements seq1 seq2)" by simp
  from m(3) inset have b: "cell_total m =
        length (filter (\<lambda>i. seq2 ! i \<in> set lbls) [0..<length seq1])"
    by (simp add: cell_total_zero)
  from m(4) have c: "\<forall>r<?k. \<forall>c<?k. m ! r ! c =
               length (filter (\<lambda>i. indexOf lbls (seq1 ! i) = int r \<and>
                                     indexOf lbls (seq2 ! i) = int c) [0..<length seq1])"
    by (simp add: cells)
  from a m(2) b c show ?thesis by blast
qed

section \<open>Observed agreement\<close>

text \<open>
  Claim C1.  For two non-empty label sequences of equal length whose labels all belong
  to the label list, \<open>calculateKappaForCategory\<close> returns a result whose
  \<open>observedAgreement\<close> is the number of positions at which the two sequences carry the
  same label, divided by the length of the sequences.
\<close>

theorem observedAgreement_rate:
  assumes "length seq1 = length seq2" and "seq1 \<noteq> []"
    and "set seq1 \<subseteq> set lbls" and "set seq2 \<subseteq> set lbls"
  shows "\<exists>res. calculateKappaForCategory seq1 seq2 lbls = Inr res \<and>
           observedAgreement res = Some (real (agreements seq1 seq2) / real (length seq1))"
proof -
  from loop_summary [OF assms(3) assms(1)]
  obtain m where "count_loop lbls seq1 seq2
                (replicate (length lbls) (replicate (length lbls) 0), 0) =
                Inr (m, agreements seq1 seq2)" by blast
  from calculate_result [OF this] assms(2) show ?thesis by simp
qed

theorem observedAgreement_rate_witness:
  "\<exists>res. calculateKappaForCategory [''positive'', ''negative'', ''neutral'', ''neutral'']
            [''positive'', ''neutral'', ''neutral'', ''negative''] sentimentLabels = Inr res \<and>
         observedAgreement res = Some (1 / 2)"
  using observedAgreement_rate
          [of "[''positive'', ''negative'', ''neutral'', ''neutral'']"
              "[''positive'', ''neutral'', ''neutral'', ''negative'']" sentimentLabels]
  by (simp add: sentimentLabels_def agreements_def upt_conv_Cons)

section \<open>The confusion matrix\<close>

lemma loop_summary_distinct:
  assumes sub: "set seq1 \<subseteq> set lbls" and len: "length seq1 = length seq2"
    and dist: "distinct lbls"
  shows "\<exists>m. count_loop lbls seq1 seq2
                (replicate (length lbls) (replicate (length lbls) 0), 0) =
                Inr (m, agreements seq1 seq2) \<and>
           square (length lbls) m \<and>
           cell_total m = length (filter (\<lambda>i. seq2 ! i \<in> set lbls) [0..<length seq1]) \<and>
           (\<forall>r<length lbls. \<forall>c<length lbls. m ! r ! c =
               cooccurrences seq1 seq2 (lbls ! r) (lbls ! c))"
proof -
  from loop_summary [OF sub len]
  obtain m where m: "count_loop lbls seq1 seq2
                (replicate (length lbls) (replicate (length lbls) 0), 0) =
                Inr (m, agreements seq1 seq2)"
      "square (length lbls) m"
      "cell_total m = length (filter (\<lambda>i. seq2 ! i \<in> set lbls) [0..<length seq1])"
      "\<forall>r<length lbls. \<forall>c<length lbls. m ! r ! c =
               length (filter (\<lambda>i. indexOf lbls (seq1 ! i) = int r \<and>
                                     indexOf lbls (seq2 ! i) = int c) [0..<length seq1])"
    by blast
  have "m ! r ! c = cooccurrences seq1 seq2 (lbls ! r) (lbls ! c)"
    if "r < length lbls" "c < length lbls" for r c
    using m(4) that by (simp add: cooccurrences_def indexOf_label_iff [OF dist])
  with m(1-3) show ?thesis by blast
qed

lemma all_in_set: "set seq2 \<subseteq> set lbls \<Longrightarrow> length seq1 = length seq2 \<Longrightarrow>
   length (filter (\<lambda>i. seq2 ! i \<in> set lbls) [0..<length seq1]) = length seq1"
proof -
  assume a: "set seq2 \<subseteq> set lbls" "length seq1 = length seq2"
  have "filter (\<lambda>i. seq2 ! i \<in> set lbls) [0..<length seq1] = [0..<length seq1]"
    using a by (auto simp: filter_id_conv)
  then show ?thesis by simp
qed

lemma fixed_labels_distinct: "distinct sentimentLabels" "distinct discourseLabels"
  by (simp_all add: sentimentLabels_def discourseLabels_def)

text \<open>
  Claim C2.  The label list is \<open>sentimentLabels\<close> (positive, negative, neutral) or
  \<open>discourseLabels\<close> (partisan, objective, non_polarized), of size \<open>k\<close>.  For two
  non-empty sequences of equal length \<open>n\<close> over the list, the matrix of the result has
  \<open>k\<close> rows of \<open>k\<close> cells; its cell in row \<open>r\<close> and column \<open>c\<close> is the number of positions
  where the first sequence has the label at position \<open>r\<close> of the list and the second the
  label at position \<open>c\<close>; and all cells together add up to \<open>n\<close>.
\<close>

theorem confusion_matrix_counts:
  assumes "length seq1 = length seq2" and "seq1 \<noteq> []"
    and "set seq1 \<subseteq> set lbls" and "set seq2 \<subseteq> set lbls"
    and "lbls = sentimentLabels \<or> lbls = discourseLabels"
  shows "\<exists>res. calculateKappaForCategory seq1 seq2 lbls = Inr res \<and>
           square (length lbls) (matrix res) \<and>
           (\<forall>r<length lbls. \<forall>c<length lbls.
               matrix res ! r ! c = cooccurrences seq1 seq2 (lbls ! r) (lbls ! c)) \<and>
           cell_total (matrix res) = length seq1"
proof -
  from assms(5) have "distinct lbls" using fixed_labels_distinct by auto
  from loop_summary_distinct [OF assms(3) assms(1) this]
  obtain m where m: "count_loop lbls seq1 seq2
                (replicate (length lbls) (replicate (length lbls) 0), 0) =
                Inr (m, agreements seq1 seq2)"
      "square (length lbls) m"
      "cell_total m = length (filter (\<lambda>i. seq2 ! i \<in> set lbls) [0..<length seq1])"
      "\<forall>r<length lbls. \<forall>c<length lbls. m ! r ! c =
               cooccurrences seq1 seq2 (lbls ! r) (lbls ! c)"
    by blast
  from m(3) have "cell_total m = length seq1" using all_in_set [OF assms(4) assms(1)] by simp
  with calculate_result [OF m(1)] assms(2) m(2) m(4) show ?thesis by simp
qed

theorem confusion_matrix_counts_witness:
  "\<exists>res. calculateKappaForCategory [''positive'', ''negative'', ''neutral'', ''neutral'']
            [''positive'', ''neutral'', ''neutral'', ''negative''] sentimentLabels = Inr res \<and>
         matrix res = [[1, 0, 0], [0, 0, 1], [0, 1, 1]] \<and>
         matrix res ! 1 ! 2 =
           cooccurrences [''positive'', ''negative'', ''neutral'', ''neutral'']
             [''positive'', ''neutral'', ''neutral'', ''negative''] ''negative'' ''neutral'' \<and>
         cell_total (matrix res) = 4"
  using confusion_matrix_counts
          [of "[''positive'', ''negative'', ''neutral'', ''neutral'']"
              "[''positive'', ''neutral'', ''neutral'', ''negative'']" sentimentLabels]
  by (simp add: calculateKappaForCategory_def sentimentLabels_def increment_def js_div_def
        js_add_def js_mul_def js_sub_def js_count_def upt_conv_Cons Let_def
        cooccurrences_def cell_total_def)

section \<open>Expected agreement\<close>

text \<open>
  Claim C3.  For two non-empty sequences of equal length \<open>n\<close> over the label list, the
  \<open>expectedAgreement\<close> of the result is the sum, over the positions \<open>r\<close> of the label
  list, of \<open>p1 r * p2 r\<close>, where \<open>p1 r\<close> is the sum of row \<open>r\<close> of the returned matrix
  divided by \<open>n\<close> and \<open>p2 r\<close> the sum of its column \<open>r\<close> divided by \<open>n\<close>.
\<close>

theorem expectedAgreement_marginals:
  assumes "length seq1 = length seq2" and "seq1 \<noteq> []"
    and "set seq1 \<subseteq> set lbls" and "set seq2 \<subseteq> set lbls"
  shows "\<exists>res. calculateKappaForCategory seq1 seq2 lbls = Inr res \<and>
           expectedAgreement res =
             Some (\<Sum>r\<leftarrow>[0..<length lbls].
                     real (row_sum (matrix res) r) / real (length seq1) *
                     (real (column_sum (matrix res) r) / real (length seq1)))"
proof -
  from loop_summary [OF assms(3) assms(1)]
  obtain m where "count_loop lbls seq1 seq2
                (replicate (length lbls) (replicate (length lbls) 0), 0) =
                Inr (m, agreements seq1 seq2)" by blast
  from calculate_result [OF this] assms(2) show ?thesis by simp
qed

theorem expectedAgreement_marginals_witness:
  "\<exists>res. calculateKappaForCategory [''positive'', ''negative'', ''neutral'', ''neutral'']
            [''positive'', ''neutral'', ''neutral'', ''negative''] sentimentLabels = Inr res \<and>
         matrix res = [[1, 0, 0], [0, 0, 1], [0, 1, 1]] \<and>
         expectedAgreement res = Some (1 / 4 * (1 / 4) + 1 / 4 * (1 / 4) + 2 / 4 * (2 / 4))"
  using expectedAgreement_marginals
          [of "[''positive'', ''negative'', ''neutral'', ''neutral'']"
              "[''positive'', ''neutral'', ''neutral'', ''negative'']" sentimentLabels]
  by (simp add: calculateKappaForCategory_def sentimentLabels_def increment_def js_div_def
        js_add_def js_mul_def js_sub_def js_count_def upt_conv_Cons Let_def)

section \<open>Kappa\<close>

lemma row_sum_cells: "square k m \<Longrightarrow> r < k \<Longrightarrow> row_sum m r = (\<Sum>c\<leftarrow>[0..<k]. m ! r ! c)"
proof -
  assume a: "square k m" "r < k"
  then have "length (m ! r) = k" by (rule square_row)
  then have "map (\<lambda>c. m ! r ! c) [0..<k] = m ! r" by (metis map_nth)
  then show ?thesis by (simp add: row_sum_def)
qed

lemma column_sum_cells: "square k m \<Longrightarrow> column_sum m c = (\<Sum>r\<leftarrow>[0..<k]. m ! r ! c)"
proof -
  assume a: "square k m"
  then have "length m = k" by (simp add: square_def)
  then have "map (\<lambda>r. m ! r ! c) [0..<k] = map (\<lambda>row. row ! c) m"
    by (auto intro: nth_equalityI)
  then show ?thesis by (simp add: column_sum_def)
qed

lemma sum_list_single:
  "j < k \<Longrightarrow> (\<Sum>i\<leftarrow>[0..<k]. if i = j then a else (0::'a::comm_monoid_add)) = a"
  by (simp add: interv_sum_list_conv_sum_set_nat)

lemma single_label_expected:
  assumes sq: "square k m" and n: "0 < n" and j: "j < k"
    and cells: "\<forall>r<k. \<forall>c<k. m ! r ! c = (if r = j \<and> c = j then n else 0)"
  shows "(\<Sum>r\<leftarrow>[0..<k]. real (row_sum m r) / real n * (real (column_sum m r) / real n)) = 1"
proof -
  have row: "row_sum m r = (if r = j then n else 0)" if "r < k" for r
  proof -
    have eq: "map (\<lambda>c. m ! r ! c) [0..<k] =
        map (\<lambda>c. if c = j then (if r = j then n else 0) else 0) [0..<k]"
      using cells that by (intro map_cong) auto
    have "row_sum m r = (\<Sum>c\<leftarrow>[0..<k]. m ! r ! c)"
      using sq that by (rule row_sum_cells)
    also have "\<dots> = (\<Sum>c\<leftarrow>[0..<k]. if c = j then (if r = j then n else 0) else 0)"
      by (simp only: eq)
    also have "\<dots> = (if r = j then n else 0)"
      using j by (rule sum_list_single)
    finally show ?thesis .
  qed
  have col: "column_sum m c = (if c = j then n else 0)" if "c < k" for c
  proof -
    have eq: "map (\<lambda>r. m ! r ! c) [0..<k] =
        map (\<lambda>r. if r = j then (if c = j then n else 0) else 0) [0..<k]"
      using cells that by (intro map_cong) auto
    have "column_sum m c = (\<Sum>r\<leftarrow>[0..<k]. m ! r ! c)"
      using sq by (rule column_sum_cells)
    also have "\<dots> = (\<Sum>r\<leftarrow>[0..<k]. if r = j then (if c = j then n else 0) else 0)"
      by (simp only: eq)
    also have "\<dots> = (if c = j then n else 0)"
      using j by (rule sum_list_single)
    finally show ?thesis .
  qed
  have eq: "map (\<lambda>r. real (row_sum m r) / real n * (real (column_sum m r) / real n)) [0..<k] =
        map (\<lambda>r. if r = j then (1::real) else 0) [0..<k]"
    using row col n by (intro map_cong) auto
  have "(\<Sum>r\<leftarrow>[0..<k]. real (row_sum m r) / real n * (real (column_sum m r) / real n)) =
        (\<Sum>r\<leftarrow>[0..<k]. if r = j then (1::real) else 0)"
    by (simp only: eq)
  also have "\<dots> = 1"
    using j by (rule sum_list_single)
  finally show ?thesis .
qed

lemma single_label_cells:
  assumes s1: "set seq1 = {l}" and s2: "set seq2 = {l}" and len: "length seq1 = length seq2"
    and l: "indexOf lbls l = int j"
  shows "length (filter (\<lambda>i. indexOf lbls (seq1 ! i) = int r \<and>
                               indexOf lbls (seq2 ! i) = int c) [0..<length seq1]) =
         (if r = j \<and> c = j then length seq1 else 0)"
proof -
  have e1: "seq1 ! i = l" if "i < length seq1" for i
    using s1 that by (metis nth_mem singletonD)
  have e2: "seq2 ! i = l" if "i < length seq1" for i
    using s2 len that by (metis nth_mem singletonD)
  have "filter (\<lambda>i. indexOf lbls (seq1 ! i) = int r \<and> indexOf lbls (seq2 ! i) = int c)
          [0..<length seq1] =
        filter (\<lambda>i. r = j \<and> c = j) [0..<length seq1]"
    using e1 e2 l by (intro filter_cong) auto
  then show ?thesis by simp
qed

text \<open>
  Claim C4.  For two non-empty sequences of equal length over the label list the result
  has finite \<open>observedAgreement\<close> \<open>po\<close> and \<open>expectedAgreement\<close> \<open>pe\<close>, and its \<open>kappa\<close>
  is \<open>1\<close> when \<open>pe\<close> is exactly \<open>1\<close> and \<open>(po - pe) / (1 - pe)\<close> otherwise; it is a finite
  number in both cases, so no division by zero takes place.  When every element of both
  sequences is one and the same label, \<open>pe = 1\<close> and \<open>kappa = 1\<close>.
\<close>

theorem kappa_guarded_formula:
  assumes "length seq1 = length seq2" and "seq1 \<noteq> []"
    and "set seq1 \<subseteq> set lbls" and "set seq2 \<subseteq> set lbls"
  shows "\<exists>res po pe. calculateKappaForCategory seq1 seq2 lbls = Inr res \<and>
           observedAgreement res = Some po \<and> expectedAgreement res = Some pe \<and>
           kappa res = Some (if pe = 1 then 1 else (po - pe) / (1 - pe)) \<and>
           ((\<exists>l. set seq1 = {l} \<and> set seq2 = {l}) \<longrightarrow> pe = 1 \<and> kappa res = Some 1)"
proof -
  let ?k = "length lbls"
  let ?n = "length seq1"
  from loop_summary [OF assms(3) assms(1)]
  obtain m where m: "count_loop lbls seq1 seq2 (replicate ?k (replicate ?k 0), 0) =
                Inr (m, agreements seq1 seq2)"
      "square ?k m"
      "\<forall>r<?k. \<forall>c<?k. m ! r ! c =
               length (filter (\<lambda>i. indexOf lbls (seq1 ! i) = int r \<and>
                                     indexOf lbls (seq2 ! i) = int c) [0..<?n])"
    by blast
  let ?po = "real (agreements seq1 seq2) / real ?n"
  let ?pe = "\<Sum>r\<leftarrow>[0..<?k]. real (row_sum m r) / real ?n * (real (column_sum m r) / real ?n)"
  let ?res = "\<lparr>observedAgreement = Some ?po, expectedAgreement = Some ?pe,
                kappa = (let po = ?po; pe = ?pe
                         in if pe = 1 then Some 1 else Some ((po - pe) / (1 - pe))),
                matrix = m\<rparr>"
  from assms(2) have n: "0 < ?n" by simp
  have res: "calculateKappaForCategory seq1 seq2 lbls = Inr ?res"
    using calculate_result [OF m(1) n] .
  have kap: "kappa ?res = Some (if ?pe = 1 then 1 else (?po - ?pe) / (1 - ?pe))"
    by (simp add: Let_def)
  have single: "?pe = 1" if "\<exists>l. set seq1 = {l} \<and> set seq2 = {l}"
  proof -
    from that obtain l where l: "set seq1 = {l}" "set seq2 = {l}" by blast
    with assms(3) have mem: "l \<in> set lbls" by simp
    define j where "j = nat (indexOf lbls l)"
    from indexOf_in_range [OF mem] have j: "indexOf lbls l = int j" "j < ?k"
      by (simp_all add: j_def nat_less_iff)
    have "\<forall>r<?k. \<forall>c<?k. m ! r ! c = (if r = j \<and> c = j then ?n else 0)"
      using m(3) single_label_cells [OF l assms(1) j(1)] by simp
    from single_label_expected [OF m(2) n j(2) this] show ?thesis .
  qed
  have "observedAgreement ?res = Some ?po \<and> expectedAgreement ?res = Some ?pe \<and>
        kappa ?res = Some (if ?pe = 1 then 1 else (?po - ?pe) / (1 - ?pe)) \<and>
        ((\<exists>l. set seq1 = {l} \<and> set seq2 = {l}) \<longrightarrow> ?pe = 1 \<and> kappa ?res = Some 1)"
    using kap single by simp
  with res show ?thesis by blast
qed

theorem kappa_guarded_formula_witness:
  "\<exists>res po pe. calculateKappaForCategory [''neutral'', ''neutral''] [''neutral'', ''neutral'']
            sentimentLabels = Inr res \<and>
         observedAgreement res = Some po \<and> expectedAgreement res = Some pe \<and>
         kappa res = Some (if pe = 1 then 1 else (po - pe) / (1 - pe)) \<and>
         pe = 1 \<and> kappa res = Some 1"
  using kappa_guarded_formula
          [of "[''neutral'', ''neutral'']" "[''neutral'', ''neutral'']" sentimentLabels]
  by (simp add: sentimentLabels_def)

lemma column_sum_le_total:
  assumes sq: "square k m" and c: "c < k"
  shows "column_sum m c \<le> cell_total m"
  unfolding column_sum_def cell_total_def
proof (rule sum_list_mono)
  fix row assume "row \<in> set m"
  with sq have "length row = k" by (simp add: square_def list_all_iff)
  with c have "row ! c \<in> set row" by simp
  then show "row ! c \<le> sum_list row" by (simp add: member_le_sum_list)
qed

lemma row_sums_total:
  assumes sq: "square k m"
  shows "(\<Sum>r\<leftarrow>[0..<k]. row_sum m r) = cell_total m"
proof -
  from sq have "length m = k" by (simp add: square_def)
  then have "map (\<lambda>r. row_sum m r) [0..<k] = map sum_list m"
    by (auto intro: nth_equalityI simp: row_sum_def)
  then show ?thesis by (simp add: cell_total_def)
qed

lemma sum_list_real_divide:
  "(\<Sum>r\<leftarrow>xs. real (f r) / n) = real (\<Sum>r\<leftarrow>xs. f r) / n"
  by (induction xs) (simp_all add: add_divide_distrib)

lemma expected_le_one:
  assumes sq: "square k m" and n: "0 < n" and tot: "cell_total m \<le> n"
  shows "(\<Sum>r\<leftarrow>[0..<k]. real (row_sum m r) / real n * (real (column_sum m r) / real n)) \<le> 1"
proof -
  have "(\<Sum>r\<leftarrow>[0..<k]. real (row_sum m r) / real n * (real (column_sum m r) / real n)) \<le>
        (\<Sum>r\<leftarrow>[0..<k]. real (row_sum m r) / real n)"
  proof (rule sum_list_mono)
    fix r assume "r \<in> set [0..<k]"
    then have "r < k" by simp
    with sq have "column_sum m r \<le> cell_total m" by (rule column_sum_le_total)
    with tot have "column_sum m r \<le> n" by simp
    with n have "real (column_sum m r) / real n \<le> 1" by simp
    moreover have "0 \<le> real (row_sum m r) / real n" by simp
    ultimately show "real (row_sum m r) / real n * (real (column_sum m r) / real n) \<le>
        real (row_sum m r) / real n"
      by (rule mult_left_le)
  qed
  also have "\<dots> = real (cell_total m) / real n"
    by (simp only: sum_list_real_divide row_sums_total [OF sq])
  also have "\<dots> \<le> 1" using n tot by simp
  finally show ?thesis .
qed

text \<open>
  Claim C9.  For two non-empty sequences of equal length over the label list the \<open>kappa\<close>
  of the result is at most \<open>1\<close>; and there are such sequences for which the observed
  agreement is below the expected agreement and \<open>kappa\<close> is negative.
\<close>

theorem kappa_at_most_one:
  "(length seq1 = length seq2 \<and> seq1 \<noteq> [] \<and> set seq1 \<subseteq> set lbls \<and> set seq2 \<subseteq> set lbls \<longrightarrow>
      (\<exists>res \<kappa>. calculateKappaForCategory seq1 seq2 lbls = Inr res \<and>
                kappa res = Some \<kappa> \<and> \<kappa> \<le> 1)) \<and>
   (\<exists>s1 s2 res po pe \<kappa>.
      length s1 = length s2 \<and> s1 \<noteq> [] \<and>
      set s1 \<subseteq> set sentimentLabels \<and> set s2 \<subseteq> set sentimentLabels \<and>
      calculateKappaForCategory s1 s2 sentimentLabels = Inr res \<and>
      observedAgreement res = Some po \<and> expectedAgreement res = Some pe \<and>
      kappa res = Some \<kappa> \<and> po < pe \<and> \<kappa> < 0)"
proof (intro conjI impI)
  assume a: "length seq1 = length seq2 \<and> seq1 \<noteq> [] \<and> set seq1 \<subseteq> set lbls \<and> set seq2 \<subseteq> set lbls"
  let ?k = "length lbls"
  let ?n = "length seq1"
  from a have len: "length seq1 = length seq2" and sub: "set seq1 \<subseteq> set lbls"
    and sub2: "set seq2 \<subseteq> set lbls" and n: "0 < ?n" by auto
  from loop_summary [OF sub len]
  obtain m where m: "count_loop lbls seq1 seq2 (replicate ?k (replicate ?k 0), 0) =
                Inr (m, agreements seq1 seq2)"
      "square ?k m"
      "cell_total m = length (filter (\<lambda>i. seq2 ! i \<in> set lbls) [0..<?n])"
    by blast
  let ?po = "real (agreements seq1 seq2) / real ?n"
  let ?pe = "\<Sum>r\<leftarrow>[0..<?k]. real (row_sum m r) / real ?n * (real (column_sum m r) / real ?n)"
  let ?res = "\<lparr>observedAgreement = Some ?po, expectedAgreement = Some ?pe,
                kappa = (let po = ?po; pe = ?pe
                         in if pe = 1 then Some 1 else Some ((po - pe) / (1 - pe))),
                matrix = m\<rparr>"
  have res: "calculateKappaForCategory seq1 seq2 lbls = Inr ?res"
    using calculate_result [OF m(1) n] .
  have "agreements seq1 seq2 \<le> ?n"
    using length_filter_le [of "\<lambda>i. seq1 ! i = seq2 ! i" "[0..<?n]"]
    by (simp add: agreements_def)
  with n have po: "?po \<le> 1" by simp
  from m(3) have "cell_total m \<le> ?n"
    using length_filter_le [of "\<lambda>i. seq2 ! i \<in> set lbls" "[0..<?n]"] by simp
  with m(2) n have pe: "?pe \<le> 1" by (rule expected_le_one)
  have bound: "(if ?pe = 1 then 1 else (?po - ?pe) / (1 - ?pe)) \<le> 1"
  proof (cases "?pe = 1")
    case True
    then show ?thesis by simp
  next
    case False
    with pe have "0 < 1 - ?pe" by simp
    moreover from po have "?po - ?pe \<le> 1 - ?pe" by simp
    ultimately have "(?po - ?pe) / (1 - ?pe) \<le> 1" by (simp add: divide_le_eq_1_pos)
    with False show ?thesis by simp
  qed
  have "kappa ?res = Some (if ?pe = 1 then 1 else (?po - ?pe) / (1 - ?pe))"
    by (simp add: Let_def)
  with res bound
  show "\<exists>res \<kappa>. calculateKappaForCategory seq1 seq2 lbls = Inr res \<and> kappa res = Some \<kappa> \<and> \<kappa> \<le> 1"
    by blast
next
  have "calculateKappaForCategory [''positive'', ''negative''] [''negative'', ''positive'']
          sentimentLabels =
        Inr \<lparr>observedAgreement = Some 0, expectedAgreement = Some (1 / 2),
             kappa = Some (- 1), matrix = [[0, 1, 0], [1, 0, 0], [0, 0, 0]]\<rparr>"
    by (simp add: calculateKappaForCategory_def sentimentLabels_def increment_def js_div_def
          js_add_def js_mul_def js_sub_def js_count_def upt_conv_Cons Let_def)
  then have "length [''positive'', ''negative''] = length [''negative'', ''positive''] \<and>
      [''positive'', ''negative''] \<noteq> [] \<and>
      set [''positive'', ''negative''] \<subseteq> set sentimentLabels \<and>
      set [''negative'', ''positive''] \<subseteq> set sentimentLabels \<and>
      calculateKappaForCategory [''positive'', ''negative''] [''negative'', ''positive'']
        sentimentLabels =
        Inr \<lparr>observedAgreement = Some 0, expectedAgreement = Some (1 / 2),
             kappa = Some (- 1), matrix = [[0, 1, 0], [1, 0, 0], [0, 0, 0]]\<rparr> \<and>
      observedAgreement \<lparr>observedAgreement = Some 0, expectedAgreement = Some (1 / 2),
             kappa = Some (- 1), matrix = [[0, 1, 0], [1, 0, 0], [0, 0, 0]]\<rparr> = Some 0 \<and>
      expectedAgreement \<lparr>observedAgreement = Some 0, expectedAgreement = Some (1 / 2),
             kappa = Some (- 1), matrix = [[0, 1, 0], [1, 0, 0], [0, 0, 0]]\<rparr> = Some (1 / 2) \<and>
      kappa \<lparr>observedAgreement = Some 0, expectedAgreement = Some (1 / 2),
             kappa = Some (- 1), matrix = [[0, 1, 0], [1, 0, 0], [0, 0, 0]]\<rparr> = Some (- 1) \<and>
      (0::real) < 1 / 2 \<and> (- 1 :: real) < 0"
    by (simp add: sentimentLabels_def)
  then show "\<exists>s1 s2 res po pe \<kappa>.
      length s1 = length s2 \<and> s1 \<noteq> [] \<and>
      set s1 \<subseteq> set sentimentLabels \<and> set s2 \<subseteq> set sentimentLabels \<and>
      calculateKappaForCategory s1 s2 sentimentLabels = Inr res \<and>
      observedAgreement res = Some po \<and> expectedAgreement res = Some pe \<and>
      kappa res = Some \<kappa> \<and> po < pe \<and> \<kappa> < 0"
    by blast
qed

theorem kappa_at_most_one_witness:
  "\<exists>res \<kappa>. calculateKappaForCategory [''positive'', ''negative'', ''neutral'', ''neutral'']
            [''positive'', ''neutral'', ''neutral'', ''negative''] sentimentLabels = Inr res \<and>
         kappa res = Some \<kappa> \<and> \<kappa> \<le> 1"
  using kappa_at_most_one
          [of "[''positive'', ''negative'', ''neutral'', ''neutral'']"
              "[''positive'', ''neutral'', ''neutral'', ''negative'']" sentimentLabels]
  by (simp add: sentimentLabels_def)

section \<open>Labels outside the label list\<close>

lemma calculate_TypeError:
  assumes "\<not> set seq1 \<subseteq> set lbls"
  shows "calculateKappaForCategory seq1 seq2 lbls = Inl TypeError"
proof -
  have "count_loop lbls seq1 seq2 (replicate (length lbls) (replicate (length lbls) 0), 0) =
        Inl TypeError"
    using square_replicate refl assms by (rule count_loop_TypeError)
  then show ?thesis by (simp add: calculateKappaForCategory_def)
qed

text \<open>
  Claim C10 says that a label outside the label list, from either annotator, is treated
  as an error and that its pair is not silently ignored.  For a label of the second
  annotator this fails: below, the second pair carries the unknown label \<open>bogus\<close> from
  annotator 2; the call returns a result, and the pair is in no cell of the matrix
  while it still counts in the divisor \<open>n = 2\<close>.
\<close>

theorem out_of_set_label_not_reported:
  "calculateKappaForCategory [''positive'', ''negative''] [''positive'', ''bogus'']
     sentimentLabels =
   Inr \<lparr>observedAgreement = Some (1 / 2), expectedAgreement = Some (1 / 4),
        kappa = Some (1 / 3), matrix = [[1, 0, 0], [0, 0, 0], [0, 0, 0]]\<rparr>"
  by (simp add: calculateKappaForCategory_def sentimentLabels_def increment_def js_div_def
        js_add_def js_mul_def js_sub_def js_count_def upt_conv_Cons Let_def)

text \<open>
  Claim C10 as amended.  If some label of the first annotator is outside the label list,
  the call ends with a \<open>TypeError\<close> and returns no result.  If all labels of the first
  annotator are in the (duplicate-free) list, the call returns a result whatever the
  labels of the second annotator are: every cell of the matrix counts exactly the
  positions that carry its two labels, so an unknown label is never counted under
  another label, and the cells add up to the number of positions whose second label is
  in the list, so the pairs with an unknown second label are left out.  Such a pair is
  no agreement either, and it still counts in the divisor of \<open>observedAgreement\<close>.
\<close>

theorem out_of_set_labels:
  "(\<not> set seq1 \<subseteq> set lbls \<longrightarrow>
      calculateKappaForCategory seq1 seq2 lbls = Inl TypeError) \<and>
   (set seq1 \<subseteq> set lbls \<and> length seq1 = length seq2 \<and> seq1 \<noteq> [] \<and> distinct lbls \<longrightarrow>
      (\<exists>res. calculateKappaForCategory seq1 seq2 lbls = Inr res \<and>
         (\<forall>r<length lbls. \<forall>c<length lbls.
             matrix res ! r ! c = cooccurrences seq1 seq2 (lbls ! r) (lbls ! c)) \<and>
         cell_total (matrix res) =
           length (filter (\<lambda>i. seq2 ! i \<in> set lbls) [0..<length seq1]) \<and>
         observedAgreement res = Some (real (agreements seq1 seq2) / real (length seq1))))"
proof (intro conjI impI)
  assume "\<not> set seq1 \<subseteq> set lbls"
  then show "calculateKappaForCategory seq1 seq2 lbls = Inl TypeError"
    by (rule calculate_TypeError)
next
  assume a: "set seq1 \<subseteq> set lbls \<and> length seq1 = length seq2 \<and> seq1 \<noteq> [] \<and> distinct lbls"
  then have sub: "set seq1 \<subseteq> set lbls" and len: "length seq1 = length seq2"
    and n: "0 < length seq1" and dist: "distinct lbls" by auto
  from loop_summary_distinct [OF sub len dist]
  obtain m where m: "count_loop lbls seq1 seq2
                (replicate (length lbls) (replicate (length lbls) 0), 0) =
                Inr (m, agreements seq1 seq2)"
      "cell_total m = length (filter (\<lambda>i. seq2 ! i \<in> set lbls) [0..<length seq1])"
      "\<forall>r<length lbls. \<forall>c<length lbls. m ! r ! c =
               cooccurrences seq1 seq2 (lbls ! r) (lbls ! c)"
    by blast
  from calculate_result [OF m(1) n] m(2) m(3)
  show "\<exists>res. calculateKappaForCategory seq1 seq2 lbls = Inr res \<and>
         (\<forall>r<length lbls. \<forall>c<length lbls.
             matrix res ! r ! c = cooccurrences seq1 seq2 (lbls ! r) (lbls ! c)) \<and>
         cell_total (matrix res) =
           length (filter (\<lambda>i. seq2 ! i \<in> set lbls) [0..<length seq1]) \<and>
         observedAgreement res = Some (real (agreements seq1 seq2) / real (length seq1))"
    by simp
qed

theorem out_of_set_labels_witness:
  "calculateKappaForCategory [''positive'', ''bogus''] [''positive'', ''negative'']
     sentimentLabels = Inl TypeError \<and>
   (\<exists>res. calculateKappaForCategory [''positive'', ''negative''] [''positive'', ''bogus'']
            sentimentLabels = Inr res \<and>
          (\<forall>r<length sentimentLabels. \<forall>c<length sentimentLabels. matrix res ! r ! c =
             cooccurrences [''positive'', ''negative''] [''positive'', ''bogus'']
               (sentimentLabels ! r) (sentimentLabels ! c)) \<and>
          cell_total (matrix res) = 1 \<and>
          observedAgreement res = Some (1 / 2))"
  using out_of_set_labels
          [of "[''positive'', ''bogus'']" sentimentLabels "[''positive'', ''negative'']"]
        out_of_set_labels
          [of "[''positive'', ''negative'']" sentimentLabels "[''positive'', ''bogus'']"]
  by (simp add: sentimentLabels_def agreements_def upt_conv_Cons)

section \<open>Pair extraction\<close>

lemma map_of_assign:
  "map_of (map (\<lambda>(k, p). if k = key then (k, g p) else (k, p)) al) k' =
     (if k' = key then map_option g (map_of al k') else map_of al k')"
  by (induction al) auto

lemma fst_assign:
  "map fst (map (\<lambda>(k, p). if k = key then (k, g p) else (k, p)) al) = map fst al"
  by (induction al) auto

lemma group_annotation_keys:
  "map fst (group_annotation al a) =
     (if comment_id a \<in> set (map fst al) then map fst al else map fst al @ [comment_id a])"
  by (auto simp: group_annotation_def Let_def fst_assign map_of_eq_None_iff)

lemma group_annotation_distinct:
  "distinct (map fst al) \<Longrightarrow> distinct (map fst (group_annotation al a))"
  by (simp add: group_annotation_keys)

lemma group_annotation_lookup:
  "map_of (group_annotation al a) k =
     (if k = comment_id a
      then Some ((case map_of al k of None \<Rightarrow> Map.empty | Some p \<Rightarrow> p)
                   (annotator_role a \<mapsto> a))
      else map_of al k)"
proof -
  define created where
    "created = (if map_of al (comment_id a) = None then al @ [(comment_id a, Map.empty)] else al)"
  have c: "map_of created k =
      (if k = comment_id a
       then Some (case map_of al k of None \<Rightarrow> Map.empty | Some p \<Rightarrow> p)
       else map_of al k)"
    by (auto simp: created_def map_add_def split: option.splits)
  have "group_annotation al a =
      map (\<lambda>(k, p). if k = comment_id a then (k, p(annotator_role a \<mapsto> a)) else (k, p)) created"
    by (simp add: group_annotation_def created_def Let_def)
  then have e: "map_of (group_annotation al a) k =
      (if k = comment_id a
       then map_option (\<lambda>p. p(annotator_role a \<mapsto> a)) (map_of created k)
       else map_of created k)"
    by (simp only: map_of_assign)
  show ?thesis unfolding e c by simp
qed

lemma judgments_of_snoc:
  "judgments_of (anns @ [a]) c r =
     (if comment_id a = c \<and> annotator_role a = r then judgments_of anns c r @ [a]
      else judgments_of anns c r)"
  by (simp add: judgments_of_def)

lemma latest_snoc:
  "latest (anns @ [a]) c r =
     (if comment_id a = c \<and> annotator_role a = r then Some a else latest anns c r)"
  by (simp add: latest_def judgments_of_snoc)

lemma latest_absent: "c \<notin> comment_id ` set anns \<Longrightarrow> latest anns c r = None"
proof -
  assume "c \<notin> comment_id ` set anns"
  then have "judgments_of anns c r = []"
    by (auto simp: judgments_of_def filter_empty_conv)
  then show ?thesis by (simp add: latest_def)
qed

lemma grouped:
  "distinct (map fst (foldl group_annotation [] anns)) \<and>
   (\<forall>k. map_of (foldl group_annotation [] anns) k =
      (if k \<in> comment_id ` set anns then Some (latest anns k) else None))"
proof (induction anns rule: rev_induct)
  case Nil
  show ?case by simp
next
  case (snoc a anns)
  let ?G = "foldl group_annotation [] anns"
  from snoc have d: "distinct (map fst ?G)"
    and look: "\<And>k. map_of ?G k = (if k \<in> comment_id ` set anns then Some (latest anns k) else None)"
    by auto
  have step: "foldl group_annotation [] (anns @ [a]) = group_annotation ?G a" by simp
  have "map_of (group_annotation ?G a) k =
      (if k \<in> comment_id ` set (anns @ [a]) then Some (latest (anns @ [a]) k) else None)" for k
  proof (cases "k = comment_id a")
    case False
    then have "latest (anns @ [a]) k = latest anns k"
      by (auto simp: latest_snoc)
    with False show ?thesis by (auto simp: group_annotation_lookup look)
  next
    case True
    have "((case map_of ?G k of None \<Rightarrow> Map.empty | Some p \<Rightarrow> p)(annotator_role a \<mapsto> a)) r =
          latest (anns @ [a]) k r" for r
      using True by (auto simp: look latest_snoc latest_absent)
    then have "(case map_of ?G k of None \<Rightarrow> Map.empty | Some p \<Rightarrow> p)(annotator_role a \<mapsto> a) =
          latest (anns @ [a]) k"
      by (rule ext)
    with True show ?thesis by (simp add: group_annotation_lookup)
  qed
  with d show ?case unfolding step by (simp add: group_annotation_distinct)
qed

lemma map_filter_via_map:
  "List.map_filter f xs = map the (filter (\<lambda>y. y \<noteq> None) (map f xs))"
  by (simp add: List.map_filter_def filter_map comp_def)

lemma mset_Object_entries: "mset (Object_entries obj) = mset obj"
  by (simp add: Object_entries_def)

lemma set_Object_entries: "set (Object_entries obj) = set obj"
  using mset_Object_entries [of obj] by (metis set_mset_mset)

lemma distinct_Object_entries:
  "distinct (map fst obj) \<Longrightarrow> distinct (map fst (Object_entries obj))"
proof -
  assume d: "distinct (map fst obj)"
  have "mset (map fst (Object_entries obj)) = mset (map fst obj)"
    by (simp add: mset_Object_entries)
  from mset_eq_imp_distinct_iff [OF this] d show ?thesis by simp
qed

lemma latest_Some:
  "latest anns c r = Some a \<Longrightarrow> a \<in> set anns \<and> comment_id a = c \<and> annotator_role a = r"
proof -
  assume "latest anns c r = Some a"
  then have "a \<in> set (rev (judgments_of anns c r))"
    by (auto simp: latest_def split: list.splits)
  then show ?thesis by (simp add: judgments_of_def)
qed

lemma latest_None_iff: "latest anns c r = None \<longleftrightarrow> judgments_of anns c r = []"
  by (simp add: latest_def split: list.splits)

text \<open>The pairs that are extracted, read off the judgments directly.\<close>

lemma extract_pairs_keys:
  "\<exists>keys. distinct keys \<and> set keys = comment_id ` set anns \<and>
     extract_pairs anns = List.map_filter (both_latest anns) keys"
proof -
  let ?G = "foldl group_annotation [] anns"
  let ?E = "Object_entries ?G"
  let ?sel = "\<lambda>p :: pair. case (p Annotator1, p Annotator2) of
                (Some a1, Some a2) \<Rightarrow> Some (a1, a2)
              | _ \<Rightarrow> None"
  from grouped [of anns] have d: "distinct (map fst ?G)"
    and look: "\<And>k. map_of ?G k = (if k \<in> comment_id ` set anns then Some (latest anns k) else None)"
    by auto
  have dE: "distinct (map fst ?E)" using d by (rule distinct_Object_entries)
  have entry: "k \<in> comment_id ` set anns \<and> p = latest anns k" if "(k, p) \<in> set ?E" for k p
  proof -
    from that have "(k, p) \<in> set ?G" by (simp add: set_Object_entries)
    with d have "map_of ?G k = Some p" by simp
    with look [of k] show ?thesis by (auto split: if_splits)
  qed
  have keys: "set (map fst ?E) = comment_id ` set anns"
  proof -
    have "set (map fst ?E) = fst ` set ?G" by (simp add: set_Object_entries)
    also have "\<dots> = dom (map_of ?G)" by (simp add: dom_map_of_conv_image_fst)
    also have "\<dots> = comment_id ` set anns" using look by (auto simp: dom_def)
    finally show ?thesis .
  qed
  have sel: "?sel (snd e) = ?sel (latest anns (fst e))" if "e \<in> set ?E" for e
    using entry [of "fst e" "snd e"] that by simp
  have "map (\<lambda>e. ?sel (snd e)) ?E = map (\<lambda>e. ?sel (latest anns (fst e))) ?E"
    by (rule map_cong [OF refl]) (rule sel)
  then have "map ?sel (map snd ?E) = map (\<lambda>k. ?sel (latest anns k)) (map fst ?E)"
    by (simp only: map_map comp_def)
  then have "List.map_filter ?sel (map snd ?E) =
      List.map_filter (\<lambda>k. ?sel (latest anns k)) (map fst ?E)"
    by (simp only: map_filter_via_map)
  then have "extract_pairs anns = List.map_filter (\<lambda>k. ?sel (latest anns k)) (map fst ?E)"
    by (simp only: extract_pairs_def complete_pairs_def Object_values_def)
  moreover have "(\<lambda>k. ?sel (latest anns k)) = both_latest anns"
    by (rule ext) (simp only: both_latest_def)
  ultimately have "extract_pairs anns = List.map_filter (both_latest anns) (map fst ?E)"
    by (simp only:)
  with dE keys show ?thesis by blast
qed

lemma set_map_filter:
  "y \<in> set (List.map_filter f xs) \<longleftrightarrow> (\<exists>x\<in>set xs. f x = Some y)"
  by (induction xs) (auto simp: List.map_filter_simps split: option.splits)

lemma both_latest_Some:
  "both_latest anns c = Some (a1, a2) \<longleftrightarrow>
     latest anns c Annotator1 = Some a1 \<and> latest anns c Annotator2 = Some a2"
  by (auto simp: both_latest_def split: option.splits)

lemma both_latest_defined:
  "both_latest anns c \<noteq> None \<longleftrightarrow>
     latest anns c Annotator1 \<noteq> None \<and> latest anns c Annotator2 \<noteq> None"
  by (auto simp: both_latest_def split: option.splits)

lemma both_latest_id: "both_latest anns c = Some p \<Longrightarrow> comment_id (fst p) = c"
  using latest_Some [of anns c Annotator1 "fst p"] both_latest_Some [of anns c "fst p" "snd p"]
  by simp

lemma both_latest_absent: "c \<notin> comment_id ` set anns \<Longrightarrow> both_latest anns c = None"
  by (simp add: both_latest_def latest_absent)

lemma extract_pairs_member:
  "(a1, a2) \<in> set (extract_pairs anns) \<longleftrightarrow>
     (\<exists>c. latest anns c Annotator1 = Some a1 \<and> latest anns c Annotator2 = Some a2)"
proof -
  from extract_pairs_keys [of anns]
  obtain keys where keys: "set keys = comment_id ` set anns"
      "extract_pairs anns = List.map_filter (both_latest anns) keys" by blast
  have "(a1, a2) \<in> set (extract_pairs anns) \<longleftrightarrow>
      (\<exists>k\<in>set keys. both_latest anns k = Some (a1, a2))"
    unfolding keys(2) by (rule set_map_filter)
  also have "\<dots> \<longleftrightarrow> (\<exists>c. both_latest anns c = Some (a1, a2))"
    unfolding keys(1) using both_latest_absent [of _ anns] by fastforce
  finally show ?thesis by (simp only: both_latest_Some)
qed

lemma extract_pairs_ids:
  "distinct (map (\<lambda>p. comment_id (fst p)) (extract_pairs anns)) \<and>
   set (map (\<lambda>p. comment_id (fst p)) (extract_pairs anns)) =
     {c. latest anns c Annotator1 \<noteq> None \<and> latest anns c Annotator2 \<noteq> None}"
proof -
  let ?F = "both_latest anns"
  from extract_pairs_keys [of anns]
  obtain keys where keys: "distinct keys" "set keys = comment_id ` set anns"
      "extract_pairs anns = List.map_filter ?F keys" by blast
  have "map (\<lambda>p. comment_id (fst p)) (extract_pairs anns) =
        map (\<lambda>k. comment_id (fst (the (?F k)))) (filter (\<lambda>k. ?F k \<noteq> None) keys)"
    unfolding keys(3) by (simp add: List.map_filter_def comp_def)
  also have "\<dots> = filter (\<lambda>k. ?F k \<noteq> None) keys"
  proof (rule map_idI)
    fix k assume "k \<in> set (filter (\<lambda>k. ?F k \<noteq> None) keys)"
    then obtain p where "?F k = Some p" by auto
    then show "comment_id (fst (the (?F k))) = k" using both_latest_id [of anns k p] by simp
  qed
  finally have eq: "map (\<lambda>p. comment_id (fst p)) (extract_pairs anns) =
      filter (\<lambda>k. ?F k \<noteq> None) keys" .
  have "set (filter (\<lambda>k. ?F k \<noteq> None) keys) = {c. ?F c \<noteq> None}"
    unfolding set_filter keys(2) using both_latest_absent [of _ anns] by fastforce
  then have "set (filter (\<lambda>k. ?F k \<noteq> None) keys) =
      {c. latest anns c Annotator1 \<noteq> None \<and> latest anns c Annotator2 \<noteq> None}"
    by (simp only: both_latest_defined)
  with keys(1) eq show ?thesis by simp
qed

lemma distinct_filter_key:
  "distinct (map f xs) \<Longrightarrow> length (filter (\<lambda>x. f x = v) xs) \<le> 1"
proof (induction xs)
  case Nil
  then show ?case by simp
next
  case (Cons x xs)
  show ?case
  proof (cases "f x = v")
    case True
    from Cons.prems have "f x \<notin> f ` set xs" by simp
    with True have "\<forall>y\<in>set xs. f y \<noteq> v" by blast
    then have "filter (\<lambda>x. f x = v) xs = []"
      by (simp add: filter_empty_conv)
    with True show ?thesis by simp
  next
    case False
    with Cons show ?thesis by simp
  qed
qed

lemma invariant_at_most_one:
  assumes "judgment_invariant anns"
  shows "length (judgments_of anns c r) \<le> 1"
proof -
  have "judgments_of anns c r =
        filter (\<lambda>a. (comment_id a, annotator_role a) = (c, r)) anns"
    by (simp add: judgments_of_def)
  with distinct_filter_key [of "\<lambda>a. (comment_id a, annotator_role a)" anns "(c, r)"] assms
  show ?thesis by (simp add: judgment_invariant_def)
qed

lemma complete_pair_latest:
  assumes "judgment_invariant anns"
  shows "complete_pair anns c \<longleftrightarrow>
           latest anns c Annotator1 \<noteq> None \<and> latest anns c Annotator2 \<noteq> None"
proof -
  have "length (judgments_of anns c r) = 1 \<longleftrightarrow> judgments_of anns c r \<noteq> []" for r
    using invariant_at_most_one [OF assms, of c r]
    by (cases "judgments_of anns c r") auto
  then show ?thesis by (simp add: complete_pair_def latest_None_iff)
qed

lemma extract_pairs_complete:
  assumes "judgment_invariant anns"
  shows "(\<forall>c. c \<in> set (map (\<lambda>p. comment_id (fst p)) (extract_pairs anns)) \<longleftrightarrow>
              complete_pair anns c) \<and>
         distinct (map (\<lambda>p. comment_id (fst p)) (extract_pairs anns)) \<and>
         (\<forall>p\<in>set (extract_pairs anns).
             fst p \<in> set anns \<and> annotator_role (fst p) = Annotator1 \<and>
             snd p \<in> set anns \<and> annotator_role (snd p) = Annotator2 \<and>
             comment_id (fst p) = comment_id (snd p))"
proof -
  have ids: "c \<in> set (map (\<lambda>p. comment_id (fst p)) (extract_pairs anns)) \<longleftrightarrow>
      complete_pair anns c" for c
    using extract_pairs_ids [of anns] by (simp add: complete_pair_latest [OF assms])
  have once: "distinct (map (\<lambda>p. comment_id (fst p)) (extract_pairs anns))"
    using extract_pairs_ids [of anns] by simp
  have same: "fst p \<in> set anns \<and> annotator_role (fst p) = Annotator1 \<and>
             snd p \<in> set anns \<and> annotator_role (snd p) = Annotator2 \<and>
             comment_id (fst p) = comment_id (snd p)"
    if mem: "p \<in> set (extract_pairs anns)" for p
  proof -
    obtain a1 a2 where p: "p = (a1, a2)" by (cases p)
    with mem have "(a1, a2) \<in> set (extract_pairs anns)" by simp
    then obtain c where "latest anns c Annotator1 = Some a1" "latest anns c Annotator2 = Some a2"
      by (auto simp: extract_pairs_member)
    then show ?thesis
      using latest_Some [of anns c Annotator1 a1] latest_Some [of anns c Annotator2 a2] p
      by simp
  qed
  from ids once same show ?thesis by blast
qed

lemma calculateKappa_unfold:
  "calculateKappa st =
     (if extract_pairs (annotations st) = [] then
        \<lparr>state = st\<lparr>loading := False\<rparr>,
         alerts = [''No complete annotation pairs found for both annotators.''],
         thrown = None\<rparr>
      else
        case calculateKappaForCategory
               (map (\<lambda>p. sentiment (fst p)) (extract_pairs (annotations st)))
               (map (\<lambda>p. sentiment (snd p)) (extract_pairs (annotations st)))
               sentimentLabels of
          Inl e \<Rightarrow> \<lparr>state = st\<lparr>loading := True\<rparr>, alerts = [], thrown = Some e\<rparr>
        | Inr sentimentKappa \<Rightarrow>
           (case calculateKappaForCategory
                   (map (\<lambda>p. discourse_polarization (fst p)) (extract_pairs (annotations st)))
                   (map (\<lambda>p. discourse_polarization (snd p)) (extract_pairs (annotations st)))
                   discourseLabels of
              Inl e \<Rightarrow> \<lparr>state = st\<lparr>loading := True\<rparr>, alerts = [], thrown = Some e\<rparr>
            | Inr discourseKappa \<Rightarrow>
                \<lparr>state = st\<lparr>kappaResults :=
                            Some \<lparr>r_sentiment = with_labels sentimentKappa sentimentLabels,
                                  discoursePolarization =
                                    with_labels discourseKappa discourseLabels\<rparr>,
                          loading := False\<rparr>,
                 alerts = [],
                 thrown = None\<rparr>))"
  by (simp add: calculateKappa_def Let_def split: sum.splits)

text \<open>
  Claim C5.  Let the judgments of the state satisfy the invariant of at most one
  judgment per item and annotator.  Then \<open>calculateKappa\<close> works on a list \<open>ps\<close> of pairs
  of judgments with these properties.  An item is the item of a pair if and only if it
  has exactly one judgment from annotator 1 and exactly one from annotator 2, and no
  item occurs twice.  Every pair consists of a judgment of annotator 1 and a judgment of
  annotator 2 on one and the same item.  If \<open>ps\<close> is empty the call is refused;
  otherwise the two sequences that \<open>calculateKappa\<close> hands to
  \<open>calculateKappaForCategory\<close>, for sentiment and for discourse, are the labels of the
  first and of the second judgments of the pairs of \<open>ps\<close> in their order, so that the two
  labels at an index come from the same item, and the outcome of the call is what
  \<open>calculateKappaForCategory\<close> makes of these sequences.
\<close>

theorem calculateKappa_complete_pairs:
  assumes "judgment_invariant (annotations st)"
  shows "\<exists>ps.
     (\<forall>c. c \<in> set (map (\<lambda>p. comment_id (fst p)) ps) \<longleftrightarrow>
          complete_pair (annotations st) c) \<and>
     distinct (map (\<lambda>p. comment_id (fst p)) ps) \<and>
     (\<forall>p\<in>set ps.
         fst p \<in> set (annotations st) \<and> annotator_role (fst p) = Annotator1 \<and>
         snd p \<in> set (annotations st) \<and> annotator_role (snd p) = Annotator2 \<and>
         comment_id (fst p) = comment_id (snd p)) \<and>
     calculateKappa st =
       (if ps = [] then
          \<lparr>state = st\<lparr>loading := False\<rparr>,
           alerts = [''No complete annotation pairs found for both annotators.''],
           thrown = None\<rparr>
        else
          case calculateKappaForCategory
                 (map (\<lambda>p. sentiment (fst p)) ps)
                 (map (\<lambda>p. sentiment (snd p)) ps)
                 sentimentLabels of
            Inl e \<Rightarrow> \<lparr>state = st\<lparr>loading := True\<rparr>, alerts = [], thrown = Some e\<rparr>
          | Inr sentimentKappa \<Rightarrow>
             (case calculateKappaForCategory
                     (map (\<lambda>p. discourse_polarization (fst p)) ps)
                     (map (\<lambda>p. discourse_polarization (snd p)) ps)
                     discourseLabels of
                Inl e \<Rightarrow> \<lparr>state = st\<lparr>loading := True\<rparr>, alerts = [], thrown = Some e\<rparr>
              | Inr discourseKappa \<Rightarrow>
                  \<lparr>state = st\<lparr>kappaResults :=
                              Some \<lparr>r_sentiment = with_labels sentimentKappa sentimentLabels,
                                    discoursePolarization =
                                      with_labels discourseKappa discourseLabels\<rparr>,
                            loading := False\<rparr>,
                   alerts = [],
                   thrown = None\<rparr>))"
  using extract_pairs_complete [OF assms] calculateKappa_unfold [of st] by blast

theorem calculateKappa_complete_pairs_witness:
  "judgment_invariant paired_judgments \<and>
   complete_pair paired_judgments 2 \<and> complete_pair paired_judgments 5 \<and>
   \<not> complete_pair paired_judgments 7 \<and>
   calculateKappa \<lparr>annotations = paired_judgments, kappaResults = None, loading = False\<rparr> =
     \<lparr>state =
        \<lparr>annotations = paired_judgments,
         kappaResults =
           Some \<lparr>r_sentiment =
                   \<lparr>observedAgreement = Some (1 / 2), expectedAgreement = Some (1 / 4),
                    kappa = Some (1 / 3), matrix = [[0, 1, 0], [0, 0, 0], [0, 0, 1]],
                    labels = sentimentLabels\<rparr>,
                 discoursePolarization =
                   \<lparr>observedAgreement = Some 1, expectedAgreement = Some (1 / 2),
                    kappa = Some 1, matrix = [[1, 0, 0], [0, 1, 0], [0, 0, 0]],
                    labels = discourseLabels\<rparr>\<rparr>,
         loading = False\<rparr>,
      alerts = [],
      thrown = None\<rparr>"
  using calculateKappa_complete_pairs
          [of "\<lparr>annotations = paired_judgments, kappaResults = None, loading = False\<rparr>"]
  by (simp add: judgment_invariant_def complete_pair_def judgments_of_def paired_judgments_def
        mk_judgment_def calculateKappa_def extract_pairs_def group_annotation_def
        Object_values_def Object_entries_def complete_pairs_def List.map_filter_def
        calculateKappaForCategory_def sentimentLabels_def discourseLabels_def increment_def
        js_div_def js_add_def js_mul_def js_sub_def js_count_def upt_conv_Cons Let_def
        with_labels_def)

lemma extract_pairs_empty_iff:
  "extract_pairs anns = [] \<longleftrightarrow>
     (\<forall>c. latest anns c Annotator1 = None \<or> latest anns c Annotator2 = None)"
proof -
  have "extract_pairs anns = [] \<longleftrightarrow> set (map (\<lambda>p. comment_id (fst p)) (extract_pairs anns)) = {}"
    by simp
  also have "\<dots> \<longleftrightarrow> (\<forall>c. latest anns c Annotator1 = None \<or> latest anns c Annotator2 = None)"
    using extract_pairs_ids [of anns] by auto
  finally show ?thesis .
qed

section \<open>No complete pairs\<close>

text \<open>
  Claim C8.  Let the judgments satisfy the invariant and let no item be a complete
  pair.  Then \<open>calculateKappa\<close> shows its message with \<open>alert\<close> and returns normally;
  nothing is stored in \<open>kappaResults\<close>, which keeps its previous value, and \<open>loading\<close> is
  off again.
\<close>

theorem no_complete_pairs_refused:
  assumes "judgment_invariant (annotations st)"
    and "\<forall>c. \<not> complete_pair (annotations st) c"
  shows "calculateKappa st =
           \<lparr>state = st\<lparr>loading := False\<rparr>,
            alerts = [''No complete annotation pairs found for both annotators.''],
            thrown = None\<rparr> \<and>
         kappaResults (state (calculateKappa st)) = kappaResults st"
proof -
  from assms have "extract_pairs (annotations st) = []"
    by (simp add: extract_pairs_empty_iff complete_pair_latest)
  then show ?thesis by (simp add: calculateKappa_def)
qed

theorem no_complete_pairs_refused_witness:
  "calculateKappa
     \<lparr>annotations = [mk_judgment 5 Annotator1 ''positive'' ''partisan'',
                     mk_judgment 2 Annotator2 ''neutral'' ''objective''],
      kappaResults = None, loading = False\<rparr> =
   \<lparr>state =
      \<lparr>annotations = [mk_judgment 5 Annotator1 ''positive'' ''partisan'',
                      mk_judgment 2 Annotator2 ''neutral'' ''objective''],
       kappaResults = None, loading = False\<rparr>,
    alerts = [''No complete annotation pairs found for both annotators.''],
    thrown = None\<rparr>"
  using no_complete_pairs_refused
          [of "\<lparr>annotations = [mk_judgment 5 Annotator1 ''positive'' ''partisan'',
                               mk_judgment 2 Annotator2 ''neutral'' ''objective''],
                kappaResults = None, loading = False\<rparr>"]
  by (simp add: judgment_invariant_def complete_pair_def judgments_of_def mk_judgment_def)

section \<open>Adjudication queue navigation\<close>











end
